theory Spec2Isabelle
  imports Main "HOL-Library.Sublist"
begin

section \<open>Meet Scribe Pro: the caption reconciliation engine of content.js\<close>

text \<open>
  The content script keeps one module-level \<open>state\<close> object, a module-level latch
  \<open>narrowObserverAttached\<close>, and talks to \<open>chrome.storage.local\<close>. The embedding
  threads all three through every operation as one record. JavaScript strings are
  \<open>string\<close>; a \<open>char\<close> stands for a code unit below 256. The plain object
  \<open>lastBySpeaker\<close> is the map of its own properties, read and written the way
  JavaScript reads and writes a property of an object literal, prototype included.
  The three inputs the script reads from its environment are parameters: the clock
  (\<open>formatTime(new Date())\<close>), the element found by \<open>getCaptionContainer()\<close>, and the
  identifier computed by \<open>getMeetingId()\<close>. The answer to the storage request that
  \<open>init\<close> sends is delivered by an event of its own, at any later time.
\<close>

subsection \<open>Data model\<close>

text \<open>One transcript line, \<open>{ ts, speaker, text }\<close>.\<close>

record entry =
  ts :: string
  speaker :: string
  "text" :: string

text \<open>One parsed caption, \<open>{ speaker, text }\<close>, as a pair.\<close>

type_synonym caption = "string \<times> string"

text \<open>
  The document tree, as far as \<open>children\<close> and \<open>textContent\<close> see it: text nodes and
  elements with their child nodes in document order.
\<close>

datatype node = TextNode string | Element "node list"

text \<open>What the \<open>MutationObserver\<close> held in \<open>state.observer\<close> watches.\<close>

datatype observed = NoObserver | BodyObserver | ContainerObserver node

text \<open>
  The two keys the script uses in \<open>chrome.storage.local\<close>. \<open>None\<close> is a key that is
  absent (for the transcript: absent or not an array).
\<close>

record storage =
  current_meeting_transcript :: "entry list option"
  current_meeting_id :: "string option"

text \<open>
  The fields of \<open>state\<close> that the claims touch, the latch, the storage, and
  \<open>pendingGet\<close>: the answer to the \<open>chrome.storage.local.get\<close> of \<open>init\<close> while its
  callback has not run yet (what storage held when \<open>init\<close> asked). \<open>lastBySpeaker\<close>
  holds the own properties of the object.
\<close>

record state =
  transcript :: "entry list"
  lastBySpeaker :: "string \<rightharpoonup> string"
  observer :: observed
  storageFlushTimer :: bool
  meetingId :: "string option"
  narrowObserverAttached :: bool
  store :: storage
  pendingGet :: "storage option"

definition emptyStorage :: storage where
  "emptyStorage = \<lparr>current_meeting_transcript = None, current_meeting_id = None\<rparr>"

text \<open>The state as the module's top level creates it, over the storage found at load time.\<close>

definition initialState :: "storage \<Rightarrow> state" where
  "initialState st =
     \<lparr>transcript = [], lastBySpeaker = Map.empty, observer = NoObserver,
      storageFlushTimer = False, meetingId = None, narrowObserverAttached = False,
      store = st, pendingGet = None\<rparr>"

subsection \<open>Properties of a plain object\<close>

text \<open>
  \<open>lastBySpeaker\<close> is created by the literal \<open>{}\<close>, so that a property it does not own
  is looked up in \<open>Object.prototype\<close>. What a read can yield: \<open>undefined\<close>, a string
  the script stored, or an inherited value that is not a string (a built-in function, or
  \<open>Object.prototype\<close> itself under the name \<open>__proto__\<close>); the inherited value is
  kept as the string that \<open>ToString\<close> makes of it.
\<close>

datatype jsvalue = Undefined | Str string | Inherited string

text \<open>
  The function-valued properties of \<open>Object.prototype\<close> with their source text as
  Chrome prints it. \<open>__proto__\<close> is an accessor and is treated apart.
\<close>

definition objectPrototype :: "(string \<times> string) list" where
  "objectPrototype =
     [(''constructor'', ''function Object() { [native code] }''),
      (''__defineGetter__'', ''function __defineGetter__() { [native code] }''),
      (''__defineSetter__'', ''function __defineSetter__() { [native code] }''),
      (''hasOwnProperty'', ''function hasOwnProperty() { [native code] }''),
      (''__lookupGetter__'', ''function __lookupGetter__() { [native code] }''),
      (''__lookupSetter__'', ''function __lookupSetter__() { [native code] }''),
      (''isPrototypeOf'', ''function isPrototypeOf() { [native code] }''),
      (''propertyIsEnumerable'', ''function propertyIsEnumerable() { [native code] }''),
      (''toString'', ''function toString() { [native code] }''),
      (''valueOf'', ''function valueOf() { [native code] }''),
      (''toLocaleString'', ''function toLocaleString() { [native code] }'')]"

text \<open>
  \<open>obj[k]\<close>: an own property wins; otherwise \<open>__proto__\<close> is the getter that returns
  \<open>Object.prototype\<close>, whose string is \<open>[object Object]\<close>; otherwise the prototype's
  property, if it has one.
\<close>

definition getProp :: "(string \<rightharpoonup> string) \<Rightarrow> string \<Rightarrow> jsvalue" where
  "getProp obj k =
     (case obj k of
        Some v \<Rightarrow> Str v
      | None \<Rightarrow>
          if k = ''__proto__'' then Inherited ''[object Object]''
          else (case map_of objectPrototype k of
                  Some src \<Rightarrow> Inherited src
                | None \<Rightarrow> Undefined))"

text \<open>
  \<open>obj[k] = v\<close> for a string \<open>v\<close>: an own property is created or overwritten, except
  that without an own property \<open>__proto__\<close> the assignment runs the inherited setter,
  which ignores a string and stores nothing.
\<close>

definition setProp :: "(string \<rightharpoonup> string) \<Rightarrow> string \<Rightarrow> string \<Rightarrow> (string \<rightharpoonup> string)" where
  "setProp obj k v = (if k = ''__proto__'' \<and> obj k = None then obj else obj(k \<mapsto> v))"

fun truthy :: "jsvalue \<Rightarrow> bool" where
  "truthy Undefined = False"
| "truthy (Str v) = (v \<noteq> [])"
| "truthy (Inherited src) = True"

fun toString :: "jsvalue \<Rightarrow> string" where
  "toString Undefined = ''undefined''"
| "toString (Str v) = v"
| "toString (Inherited src) = src"

text \<open>\<open>t.startsWith(v)\<close>, which converts its argument to a string first.\<close>

definition startsWith :: "string \<Rightarrow> jsvalue \<Rightarrow> bool" where
  "startsWith t v = prefix (toString v) t"

subsection \<open>Helpers\<close>

text \<open>
  \<open>scheduleStorageFlush\<close>: a pending timer is left alone, otherwise one is started.
  \<open>flushTimerFires\<close> is the timer's callback, two seconds later.
\<close>

definition scheduleStorageFlush :: "state \<Rightarrow> state" where
  "scheduleStorageFlush s =
     (if storageFlushTimer s then s else s\<lparr>storageFlushTimer := True\<rparr>)"

definition flushTimerFires :: "state \<Rightarrow> state" where
  "flushTimerFires s =
     (if storageFlushTimer s
      then s\<lparr>storageFlushTimer := False,
             store := \<lparr>current_meeting_transcript = Some (transcript s),
                       current_meeting_id = meetingId s\<rparr>\<rparr>
      else s)"

subsection \<open>Caption parsing\<close>

text \<open>White space as \<open>\s\<close> and \<open>trim()\<close> see it, among the code units below 256.\<close>

definition isSpace :: "char \<Rightarrow> bool" where
  "isSpace c \<longleftrightarrow> (of_char c :: nat) \<in> {9, 10, 11, 12, 13, 32, 160}"

definition trim :: "string \<Rightarrow> string" where
  "trim s = rev (dropWhile isSpace (rev (dropWhile isSpace s)))"

text \<open>\<open>s.replace(/\s+/g, " ")\<close>: every maximal run of white space becomes one space.\<close>

function collapseSpaces :: "string \<Rightarrow> string" where
  "collapseSpaces [] = []"
| "collapseSpaces (c # cs) =
     (if isSpace c then CHR '' '' # collapseSpaces (dropWhile isSpace cs)
      else c # collapseSpaces cs)"
  by pat_completeness auto
termination
  by (relation "measure length") (auto simp: length_dropWhile_le less_Suc_eq_le)

fun join :: "string \<Rightarrow> string list \<Rightarrow> string" where
  "join sep [] = []"
| "join sep [x] = x"
| "join sep (x # y # ys) = x @ sep @ join sep (y # ys)"

fun isElement :: "node \<Rightarrow> bool" where
  "isElement (Element ns) = True"
| "isElement (TextNode t) = False"

fun textContent :: "node \<Rightarrow> string" where
  "textContent (TextNode t) = t"
| "textContent (Element ns) = concat (map textContent ns)"

fun children :: "node \<Rightarrow> node list" where
  "children (Element ns) = filter isElement ns"
| "children (TextNode t) = []"

text \<open>The text of one speaker block: children after the first, joined and normalised.\<close>

definition blockText :: "node list \<Rightarrow> string" where
  "blockText rest = trim (collapseSpaces (join '' '' (map textContent rest)))"

text \<open>
  The body of the loop over \<open>blocks\<close>: \<open>None\<close> is a block that pushes nothing
  (\<open>continue\<close>, or an empty text).
\<close>

definition parseBlock :: "node \<Rightarrow> caption option" where
  "parseBlock block =
     (case children block of
        speakerEl # el # els \<Rightarrow>
          (let speakerName =
                 (if trim (textContent speakerEl) = [] then ''Unknown''
                  else trim (textContent speakerEl));
               t = blockText (el # els)
           in if t \<noteq> [] then Some (speakerName, t) else None)
      | _ \<Rightarrow> None)"

definition parseCaptions :: "node \<Rightarrow> caption list" where
  "parseCaptions container =
     (let results = List.map_filter parseBlock (children container)
      in if results = []
         then (let fallback = trim (collapseSpaces (textContent container))
               in if fallback \<noteq> [] then [(''System'', fallback)] else [])
         else results)"

subsection \<open>Core processing\<close>

text \<open>
  One iteration of the loop in \<open>processCaptions\<close>, on the pair \<open>(state, changed)\<close>.
  \<open>now\<close> is what \<open>formatTime(new Date())\<close> returns in this iteration, \<open>prev\<close> what
  the read \<open>state.lastBySpeaker[speaker]\<close> yields.
\<close>

definition isContinuation :: "state \<Rightarrow> string \<Rightarrow> string \<Rightarrow> bool" where
  "isContinuation s spk t \<longleftrightarrow>
     (let prev = getProp (lastBySpeaker s) spk
      in truthy prev \<and> transcript s \<noteq> [] \<and> startsWith t prev \<and>
         speaker (last (transcript s)) = spk)"

definition processEntry :: "string \<Rightarrow> caption \<Rightarrow> state \<times> bool \<Rightarrow> state \<times> bool" where
  "processEntry now c sc =
     (case c of (spk, t) \<Rightarrow>
      case sc of (s, changed) \<Rightarrow>
        if t = [] \<or> getProp (lastBySpeaker s) spk = Str t then (s, changed)
        else
          (let tr = (if isContinuation s spk t
                     then butlast (transcript s) @
                          [(last (transcript s))\<lparr>text := t, ts := now\<rparr>]
                     else transcript s @ [\<lparr>ts = now, speaker = spk, text = t\<rparr>])
           in (s\<lparr>transcript := tr, lastBySpeaker := setProp (lastBySpeaker s) spk t\<rparr>,
               True)))"

text \<open>
  The loop. \<open>clock i\<close> is the formatted time read in iteration \<open>i\<close> of the call, counted
  from \<open>k\<close>.
\<close>

fun processLoop :: "(nat \<Rightarrow> string) \<Rightarrow> nat \<Rightarrow> caption list \<Rightarrow> state \<times> bool \<Rightarrow> state \<times> bool" where
  "processLoop clock k [] sc = sc"
| "processLoop clock k (c # cs) sc = processLoop clock (Suc k) cs (processEntry (clock k) c sc)"

text \<open>
  \<open>processCaptions\<close> from \<open>let changed = false\<close> on, for the parsed entries: the state
  after the call, and \<open>changed\<close>.
\<close>

definition reconcile :: "(nat \<Rightarrow> string) \<Rightarrow> caption list \<Rightarrow> state \<Rightarrow> state \<times> bool" where
  "reconcile clock entries s =
     (case processLoop clock 0 entries (s, False) of
        (s', changed) \<Rightarrow> (if changed then scheduleStorageFlush s' else s', changed))"

definition processCaptions :: "(nat \<Rightarrow> string) \<Rightarrow> node option \<Rightarrow> state \<Rightarrow> state" where
  "processCaptions clock container s =
     (case container of
        None \<Rightarrow> s
      | Some c \<Rightarrow> fst (reconcile clock (parseCaptions c) s))"

subsection \<open>Observer lifecycle, start and navigation\<close>

definition tryNarrowObserver :: "node option \<Rightarrow> state \<Rightarrow> state" where
  "tryNarrowObserver container s =
     (if narrowObserverAttached s then s
      else case container of
             None \<Rightarrow> s
           | Some c \<Rightarrow> s\<lparr>observer := ContainerObserver c, narrowObserverAttached := True\<rparr>)"

text \<open>
  \<open>init\<close>: \<open>mid\<close> is the result of \<open>getMeetingId()\<close>, \<open>container\<close> that of
  \<open>getCaptionContainer()\<close>. The storage request is sent and its answer stays pending.
\<close>

definition init :: "string \<Rightarrow> node option \<Rightarrow> storage \<Rightarrow> state" where
  "init mid container st =
     tryNarrowObserver container
       ((initialState st)\<lparr>meetingId := Some mid, observer := BodyObserver,
                           pendingGet := Some st\<rparr>)"

text \<open>
  The callback that \<open>init\<close> hands to \<open>chrome.storage.local.get\<close>, on the answer
  \<open>data\<close>: it compares the stored id with \<open>state.meetingId\<close> as it is when the
  callback runs (\<open>idMatches\<close>; an absent id is \<open>undefined\<close> and equals nothing the
  state holds). \<open>storageAnswer\<close> delivers the pending answer; without one nothing
  happens.
\<close>

definition idMatches :: "storage \<Rightarrow> state \<Rightarrow> bool" where
  "idMatches data s =
     (case current_meeting_id data of None \<Rightarrow> False | Some i \<Rightarrow> meetingId s = Some i)"

definition restore :: "storage \<Rightarrow> state \<Rightarrow> state" where
  "restore data s =
     (case current_meeting_transcript data of
        Some tr \<Rightarrow> (if idMatches data s then s\<lparr>transcript := tr\<rparr> else s)
      | None \<Rightarrow> s)"

definition storageAnswer :: "state \<Rightarrow> state" where
  "storageAnswer s =
     (case pendingGet s of
        None \<Rightarrow> s
      | Some data \<Rightarrow> restore data (s\<lparr>pendingGet := None\<rparr>))"

definition removeBoth :: "storage \<Rightarrow> storage" where
  "removeBoth st = st\<lparr>current_meeting_transcript := None, current_meeting_id := None\<rparr>"

definition handleNavigation :: "string \<Rightarrow> node option \<Rightarrow> state \<Rightarrow> state" where
  "handleNavigation newId container s =
     (if Some newId \<noteq> meetingId s
      then tryNarrowObserver container
             (s\<lparr>transcript := [], lastBySpeaker := Map.empty, meetingId := Some newId,
                narrowObserverAttached := False, store := removeBoth (store s)\<rparr>)
      else s)"

text \<open>The \<open>clear\<close> request of the message handler.\<close>

definition clear :: "state \<Rightarrow> state" where
  "clear s =
     s\<lparr>transcript := [], lastBySpeaker := Map.empty,
       store := (store s)\<lparr>current_meeting_transcript := None\<rparr>\<rparr>"

subsection \<open>Runs of the script\<close>

text \<open>
  What can happen after \<open>init\<close>, in any order: the debounce timer fires and
  \<open>processCaptions\<close> finds the parsed entries, the popup sends \<open>clear\<close>, the
  navigation poll fires, the flush timer fires, the answer to the storage request
  arrives.
\<close>

datatype event =
    Reconcile "nat \<Rightarrow> string" "caption list"
  | Clear
  | Navigation string "node option"
  | Flush
  | StorageAnswer

fun step :: "state \<Rightarrow> event \<Rightarrow> state" where
  "step s (Reconcile clock entries) = fst (reconcile clock entries s)"
| "step s Clear = clear s"
| "step s (Navigation newId container) = handleNavigation newId container s"
| "step s Flush = flushTimerFires s"
| "step s StorageAnswer = storageAnswer s"

definition run :: "state \<Rightarrow> event list \<Rightarrow> state" where
  "run s evs = foldl step s evs"

text \<open>Speaker and text of every line, without the time stamps.\<close>

definition lines :: "state \<Rightarrow> caption list" where
  "lines s = map (\<lambda>e. (speaker e, text e)) (transcript s)"

subsection \<open>Notions used by the invariants\<close>

text \<open>The text of the most recent line of a speaker, if the speaker has one.\<close>

definition latestText :: "string \<Rightarrow> entry list \<Rightarrow> string option" where
  "latestText S T = map_option text (List.find (\<lambda>e. speaker e = S) (rev T))"

text \<open>
  The speakers for whom a snapshot carries a non-empty text, and the set of speakers
  that the loop has seen with a non-empty text since the state was last emptied (by
  \<open>init\<close>, \<open>clear\<close>, or a navigation to another meeting), along a run.
\<close>

definition spokenIn :: "caption list \<Rightarrow> string set" where
  "spokenIn es = fst ` set (filter (\<lambda>c. snd c \<noteq> []) es)"

fun spokenAfter :: "state \<Rightarrow> string set \<Rightarrow> event \<Rightarrow> string set" where
  "spokenAfter s G (Reconcile clock es) = G \<union> spokenIn es"
| "spokenAfter s G Clear = {}"
| "spokenAfter s G (Navigation newId container) =
     (if Some newId \<noteq> meetingId s then {} else G)"
| "spokenAfter s G Flush = G"
| "spokenAfter s G StorageAnswer = G"

fun spokenSinceReset :: "state \<Rightarrow> string set \<Rightarrow> event list \<Rightarrow> string set" where
  "spokenSinceReset s G [] = G"
| "spokenSinceReset s G (ev # evs) = spokenSinceReset (step s ev) (spokenAfter s G ev) evs"

text \<open>
  \<open>lastBySpeaker\<close> agrees with the transcript for speaker \<open>S\<close>: it holds the text of
  the speaker's most recent line when the speaker is in \<open>G\<close>, and nothing otherwise.
\<close>

definition agrees :: "string set \<Rightarrow> state \<Rightarrow> string \<Rightarrow> bool" where
  "agrees G s S =
     (if S \<in> G
      then lastBySpeaker s S \<noteq> None \<and> lastBySpeaker s S = latestText S (transcript s)
      else lastBySpeaker s S = None)"

text \<open>
  Two neighbouring lines of one speaker, the text of the first a strict prefix of the
  text of the second.
\<close>

fun unmergedContinuation :: "entry list \<Rightarrow> bool" where
  "unmergedContinuation (a # b # rest) =
     ((speaker a = speaker b \<and> strict_prefix (text a) (text b)) \<or>
      unmergedContinuation (b # rest))"
| "unmergedContinuation [a] = False"
| "unmergedContinuation [] = False"

text \<open>
  The last line is not empty and is what \<open>lastBySpeaker\<close> holds for its speaker, unless
  that speaker is \<open>__proto__\<close>.
\<close>

definition lastLineCached :: "state \<Rightarrow> bool" where
  "lastLineCached s \<longleftrightarrow>
     transcript s = [] \<or> speaker (last (transcript s)) = ''__proto__'' \<or>
     (text (last (transcript s)) \<noteq> [] \<and>
      lastBySpeaker s (speaker (last (transcript s))) = Some (text (last (transcript s))))"

text \<open>
  Whether the transcript is a restored one that nothing has touched: true from the
  moment the storage answer installs a non-empty transcript until a reconcile call
  reports a change, or \<open>clear\<close> or a navigation to another meeting empties the state.
\<close>

fun restoredAfter :: "state \<Rightarrow> bool \<Rightarrow> event \<Rightarrow> bool" where
  "restoredAfter s b (Reconcile clock es) = (b \<and> \<not> snd (reconcile clock es s))"
| "restoredAfter s b Clear = False"
| "restoredAfter s b (Navigation newId container) = (b \<and> Some newId = meetingId s)"
| "restoredAfter s b Flush = b"
| "restoredAfter s b StorageAnswer =
     (case pendingGet s of
        None \<Rightarrow> b
      | Some data \<Rightarrow>
          (case current_meeting_transcript data of
             None \<Rightarrow> b
           | Some tr \<Rightarrow> if idMatches data s then tr \<noteq> [] else b))"

fun restoredUntouched :: "state \<Rightarrow> bool \<Rightarrow> event list \<Rightarrow> bool" where
  "restoredUntouched s b [] = b"
| "restoredUntouched s b (ev # evs) =
     restoredUntouched (step s ev) (restoredAfter s b ev) evs"

subsection \<open>Concrete sessions\<close>

text \<open>Two clocks, each reading the same second throughout a call.\<close>

definition noon :: "nat \<Rightarrow> string" where
  "noon i = ''12:00:00''"

definition later :: "nat \<Rightarrow> string" where
  "later i = ''12:00:07''"

text \<open>A session in which Sam has said Hello, and one where the line has grown.\<close>

definition afterHello :: state where
  "afterHello = fst (reconcile noon [(''Sam'', ''Hello'')] (initialState emptyStorage))"


text \<open>A caption region showing two blocks of one speaker, and what the parser makes of it.\<close>

definition twoBlocksRegion :: node where
  "twoBlocksRegion =
     Element [Element [Element [TextNode ''Ada''], Element [TextNode ''Hello'']],
              Element [Element [TextNode ''Ada''], Element [TextNode ''Thanks'']]]"

definition twoBlocks :: "caption list" where
  "twoBlocks = [(''Ada'', ''Hello''), (''Ada'', ''Thanks'')]"

definition twoSpeakers :: "caption list" where
  "twoSpeakers = [(''Ada'', ''Hello''), (''Bob'', ''Hi'')]"

text \<open>A region without any speaker block: loose text and one childless element.\<close>

definition rawRegion :: node where
  "rawRegion = Element [TextNode ''raw'', Element [TextNode ''  stuff '']]"

text \<open>A region found after a navigation.\<close>

definition freshRegion :: node where
  "freshRegion = Element [Element [Element [TextNode ''Bob''], Element [TextNode ''Hi'']]]"

text \<open>
  A caption that is rewritten to a shorter text and then grows again, in a session that
  started with nothing in storage.
\<close>

definition rewriteRun :: "event list" where
  "rewriteRun =
     [StorageAnswer,
      Reconcile noon [(''Sam'', ''Hello world'')],
      Reconcile noon [(''Sam'', ''Hello'')],
      Reconcile later [(''Sam'', ''Hello world again'')]]"

text \<open>What a session leaves in storage after one caption and one flush.\<close>

definition flushedStorage :: storage where
  "flushedStorage =
     store (run (init ''abc-defg-hij'' None emptyStorage)
              [StorageAnswer, Reconcile noon [(''Sam'', ''Hello'')], Flush])"

text \<open>
  What a session leaves in storage when the popup clears the transcript while a flush
  is pending: the flush then stores the empty transcript under the meeting id.
\<close>

definition clearedStorage :: storage where
  "clearedStorage =
     store (run (init ''abc-defg-hij'' None emptyStorage)
              [StorageAnswer, Reconcile noon [(''Sam'', ''Hello'')], Clear, Flush])"

text \<open>
  The next load of the page in the same meeting, with the storage answer arriving
  first and captions after it.
\<close>

definition restoredRun :: "event list" where
  "restoredRun = [StorageAnswer, Reconcile later twoSpeakers]"

text \<open>
  The next load of the page in the same meeting, with the storage answer arriving
  after the first captions: the state before the answer, and the run with it.
\<close>

definition beforeLateAnswer :: "storage \<Rightarrow> state" where
  "beforeLateAnswer st = run (init ''abc-defg-hij'' None st) [Reconcile later twoSpeakers]"

definition lateAnswerRun :: "event list" where
  "lateAnswerRun = [Reconcile later twoSpeakers, StorageAnswer]"

text \<open>A session with captions, a narrowed observer and a flushed transcript.\<close>

definition liveSession :: state where
  "liveSession =
     run (init ''abc-defg-hij'' (Some twoBlocksRegion) emptyStorage)
       [StorageAnswer, Reconcile noon twoSpeakers, Flush]"

text \<open>
  A participant whose display name is \<open>__proto__\<close>: the caption region, the snapshot
  the parser returns for it, a snapshot with two blocks of that speaker, and a session
  that receives the first snapshot.
\<close>

definition protoRegion :: node where
  "protoRegion =
     Element [Element [Element [TextNode ''__proto__''], Element [TextNode ''Hi'']]]"

definition protoSnapshot :: "caption list" where
  "protoSnapshot = [(''__proto__'', ''Hi'')]"

definition protoTwice :: "caption list" where
  "protoTwice = [(''__proto__'', ''Hi''), (''__proto__'', ''Hi all'')]"

definition protoRun :: "event list" where
  "protoRun = [StorageAnswer, Reconcile noon protoSnapshot]"

section \<open>Properties of the loop\<close>

text \<open>Starting the flush timer, pending or not, leaves it pending.\<close>

lemma scheduleStorageFlush_eq: "scheduleStorageFlush s = s\<lparr>storageFlushTimer := True\<rparr>"
  by (simp add: scheduleStorageFlush_def)

lemmas engine_defs =
  reconcile_def processEntry_def isContinuation_def scheduleStorageFlush_eq
  initialState_def emptyStorage_def getProp_def setProp_def objectPrototype_def
  startsWith_def

lemmas run_defs =
  run_def init_def restore_def idMatches_def storageAnswer_def tryNarrowObserver_def
  handleNavigation_def clear_def flushTimerFires_def removeBoth_def noon_def later_def

text \<open>Reading and writing own properties.\<close>

lemma getProp_Str: "getProp obj k = Str v \<longleftrightarrow> obj k = Some v"
  by (auto simp: getProp_def split: option.splits)

lemma getProp_own: "obj k = Some v \<Longrightarrow> getProp obj k = Str v"
  by (simp add: getProp_def)

lemma setProp_other: "k' \<noteq> k \<Longrightarrow> setProp obj k v k' = obj k'"
  by (simp add: setProp_def)

lemma setProp_same: "k \<noteq> ''__proto__'' \<or> obj k \<noteq> None \<Longrightarrow> setProp obj k v k = Some v"
  by (auto simp: setProp_def)

lemma idMatches_pendingGet: "idMatches data (s\<lparr>pendingGet := g\<rparr>) = idMatches data s"
  by (simp add: idMatches_def split: option.splits)

lemma isContinuation_last:
  "isContinuation s spk t \<Longrightarrow> transcript s \<noteq> [] \<and> speaker (last (transcript s)) = spk"
  by (simp add: isContinuation_def Let_def)

lemma run_Cons: "run s (ev # evs) = run (step s ev) evs"
  by (simp add: run_def)

lemma run_snoc: "run s (evs @ [ev]) = step (run s evs) ev"
  by (simp add: run_def)

text \<open>The debounced callback is a reconcile event on what the parser returns.\<close>

lemma processCaptions_step:
  "processCaptions clock (Some c) s = step s (Reconcile clock (parseCaptions c))"
  "processCaptions clock None s = s"
  by (simp_all add: processCaptions_def)

lemma processLoop_snoc:
  "processLoop clock k (es @ [c]) sc =
     processEntry (clock (k + length es)) c (processLoop clock k es sc)"
  by (induction es arbitrary: k sc) auto

lemma reconcile_transcript:
  "transcript (fst (reconcile clock es s)) = transcript (fst (processLoop clock 0 es (s, False)))"
  by (simp add: reconcile_def scheduleStorageFlush_def split: prod.splits)

lemma reconcile_lastBySpeaker:
  "lastBySpeaker (fst (reconcile clock es s)) =
     lastBySpeaker (fst (processLoop clock 0 es (s, False)))"
  by (simp add: reconcile_def scheduleStorageFlush_def split: prod.splits)

text \<open>An iteration leaves the transcript alone, amends its last line, or appends one.\<close>

lemma processEntry_transcript_cases:
  assumes "processEntry now (spk, t) (s, ch) = (s', ch')"
  shows "transcript s' = transcript s \<or>
         (transcript s \<noteq> [] \<and> speaker (last (transcript s)) = spk \<and>
          transcript s' =
            butlast (transcript s) @ [(last (transcript s))\<lparr>text := t, ts := now\<rparr>]) \<or>
         transcript s' = transcript s @ [\<lparr>ts = now, speaker = spk, text = t\<rparr>]"
proof (cases "t = [] \<or> getProp (lastBySpeaker s) spk = Str t")
  case True
  with assms show ?thesis by (simp add: processEntry_def)
next
  case False
  show ?thesis
  proof (cases "isContinuation s spk t")
    case True
    then have "transcript s \<noteq> [] \<and> speaker (last (transcript s)) = spk"
      by (rule isContinuation_last)
    with assms False True show ?thesis
      by (auto simp: processEntry_def)
  next
    case no: False
    with assms False show ?thesis
      by (auto simp: processEntry_def)
  qed
qed

lemma amend_last_frame:
  assumes "T \<noteq> []" and "speaker e = speaker (last T)"
  shows "prefix (butlast T) (butlast T @ [e])"
    and "length T \<le> length (butlast T @ [e])"
    and "map speaker (butlast T @ [e]) = map speaker T"
proof -
  show "prefix (butlast T) (butlast T @ [e])" by simp
  show "length T \<le> length (butlast T @ [e])" using assms(1) by simp
  have "map speaker T = map speaker (butlast T @ [last T])"
    using assms(1) by simp
  then show "map speaker (butlast T @ [e]) = map speaker T"
    using assms(2) by simp
qed

lemma processEntry_frame:
  assumes "processEntry now c (s, ch) = (s', ch')"
  shows "prefix (butlast (transcript s)) (transcript s') \<and>
         length (transcript s) \<le> length (transcript s') \<and>
         prefix (map speaker (transcript s)) (map speaker (transcript s'))"
proof -
  obtain spk t where c: "c = (spk, t)" by (cases c)
  from processEntry_transcript_cases [OF assms [unfolded c]]
  consider "transcript s' = transcript s"
    | "transcript s \<noteq> []" "speaker (last (transcript s)) = spk"
      "transcript s' =
         butlast (transcript s) @ [(last (transcript s))\<lparr>text := t, ts := now\<rparr>]"
    | "transcript s' = transcript s @ [\<lparr>ts = now, speaker = spk, text = t\<rparr>]"
    by blast
  then show ?thesis
  proof cases
    case 1
    then show ?thesis by (simp add: prefixeq_butlast)
  next
    case 2
    have "speaker ((last (transcript s))\<lparr>text := t, ts := now\<rparr>) = speaker (last (transcript s))"
      by simp
    from amend_last_frame [OF 2(1) this] 2(3) show ?thesis
      by simp
  next
    case 3
    have "prefix (butlast (transcript s)) (transcript s)"
      by (rule prefixeq_butlast)
    then have "prefix (butlast (transcript s))
                 (transcript s @ [\<lparr>ts = now, speaker = spk, text = t\<rparr>])"
      by (rule prefix_prefix)
    with 3 show ?thesis by simp
  qed
qed

lemma butlast_chain:
  assumes "prefix (butlast A) B" and "length A \<le> length B" and "prefix (butlast B) C"
  shows "prefix (butlast A) C"
proof -
  have "prefix (butlast B) B"
    by (rule prefixeq_butlast)
  moreover have "length (butlast A) \<le> length (butlast B)"
    using assms(2) by simp
  ultimately have "prefix (butlast A) (butlast B)"
    using assms(1) by (rule prefix_length_prefix [rotated])
  with assms(3) show ?thesis
    by (rule prefix_order.trans [rotated])
qed

lemma processLoop_frame:
  assumes "processLoop clock k es (s, ch) = (s', ch')"
  shows "prefix (butlast (transcript s)) (transcript s') \<and>
         length (transcript s) \<le> length (transcript s') \<and>
         prefix (map speaker (transcript s)) (map speaker (transcript s'))"
  using assms
proof (induction es arbitrary: k s ch)
  case Nil
  then show ?case by (simp add: prefixeq_butlast)
next
  case (Cons c cs)
  obtain s1 ch1 where mid: "processEntry (clock k) c (s, ch) = (s1, ch1)"
    by (cases "processEntry (clock k) c (s, ch)")
  with Cons.prems have rest: "processLoop clock (Suc k) cs (s1, ch1) = (s', ch')"
    by simp
  note a = processEntry_frame [OF mid] and b = Cons.IH [OF rest]
  have "prefix (butlast (transcript s)) (transcript s')"
    using a b by (blast intro: butlast_chain)
  moreover have "length (transcript s) \<le> length (transcript s')"
    using a b by linarith
  moreover have "prefix (map speaker (transcript s)) (map speaker (transcript s'))"
    using a b by (blast intro: prefix_order.trans)
  ultimately show ?case by simp
qed

text \<open>A snapshot that repeats what \<open>lastBySpeaker\<close> holds changes nothing.\<close>

lemma processLoop_unchanged:
  assumes "\<forall>c \<in> set es. snd c = [] \<or> lastBySpeaker s (fst c) = Some (snd c)"
  shows "processLoop clock k es (s, ch) = (s, ch)"
  using assms
proof (induction es arbitrary: k)
  case Nil
  then show ?case by simp
next
  case (Cons c cs)
  then have "processEntry (clock k) c (s, ch) = (s, ch)"
    by (cases c) (auto simp: processEntry_def getProp_own)
  with Cons show ?case by simp
qed

lemma processEntry_lastBySpeaker:
  assumes "S \<noteq> ''__proto__''"
  shows "lastBySpeaker (fst (processEntry now (spk, t) sc)) S =
     (if spk = S \<and> t \<noteq> [] then Some t else lastBySpeaker (fst sc) S)"
  using assms
  by (cases sc) (auto simp: processEntry_def getProp_Str setProp_other setProp_same)

lemma processLoop_lastBySpeaker:
  assumes "S \<noteq> ''__proto__''" and "(S, t) \<in> set es" and "t \<noteq> []"
    and "\<forall>c \<in> set es. fst c = S \<longrightarrow> snd c = [] \<or> snd c = t"
  shows "lastBySpeaker (fst (processLoop clock k es sc)) S = Some t"
  using assms
proof (induction es rule: rev_induct)
  case Nil
  then show ?case by simp
next
  case (snoc c cs)
  obtain spk u where c: "c = (spk, u)" by (cases c)
  show ?case
  proof (cases "spk = S \<and> u \<noteq> []")
    case True
    with snoc.prems(4) c have "u = t" by auto
    with True c snoc.prems(1) show ?thesis
      by (simp add: processLoop_snoc processEntry_lastBySpeaker)
  next
    case False
    with snoc.prems(2,3) c have "(S, t) \<in> set cs" by auto
    with snoc.IH snoc.prems(1,3,4)
    have "lastBySpeaker (fst (processLoop clock k cs sc)) S = Some t" by simp
    with False c snoc.prems(1) show ?thesis
      by (auto simp: processLoop_snoc processEntry_lastBySpeaker)
  qed
qed

text \<open>
  Frame of reconcile. Whatever the parsed entries, a reconcile call keeps every line but
  the last one of the transcript it started from, in place; the transcript does not get
  shorter; and the speakers of the old lines stay where they were. Among the events of a
  run, only clear, a navigation to another meeting id and the storage answer can turn a
  non-empty transcript into the empty one.
\<close>

lemma reconcile_frame:
  "prefix (butlast (transcript s)) (transcript (fst (reconcile clock es s))) \<and>
   length (transcript s) \<le> length (transcript (fst (reconcile clock es s))) \<and>
   prefix (map speaker (transcript s)) (map speaker (transcript (fst (reconcile clock es s)))) \<and>
   (transcript s \<noteq> [] \<and> transcript (step s ev) = [] \<longrightarrow>
      ev = Clear \<or> (\<exists>newId c. ev = Navigation newId c \<and> Some newId \<noteq> meetingId s) \<or>
      ev = StorageAnswer)"
proof -
  have frame: "prefix (butlast (transcript s)) (transcript (fst (reconcile clock' es' s))) \<and>
      length (transcript s) \<le> length (transcript (fst (reconcile clock' es' s))) \<and>
      prefix (map speaker (transcript s))
        (map speaker (transcript (fst (reconcile clock' es' s))))"
    for clock' es'
  proof -
    obtain s' ch' where loop: "processLoop clock' 0 es' (s, False) = (s', ch')"
      by (cases "processLoop clock' 0 es' (s, False)")
    then have "transcript (fst (reconcile clock' es' s)) = transcript s'"
      by (simp add: reconcile_transcript)
    with processLoop_frame [OF loop] show ?thesis by simp
  qed
  have "ev = Clear \<or> (\<exists>newId c. ev = Navigation newId c \<and> Some newId \<noteq> meetingId s) \<or>
      ev = StorageAnswer"
    if ne: "transcript s \<noteq> []" and em: "transcript (step s ev) = []"
  proof (cases ev)
    case (Reconcile clock' es')
    with em have "transcript (fst (reconcile clock' es' s)) = []" by simp
    with frame [of clock' es'] ne show ?thesis by simp
  next
    case Clear
    then show ?thesis by simp
  next
    case (Navigation newId c)
    with ne em show ?thesis
      by (cases "Some newId = meetingId s") (simp_all add: handleNavigation_def)
  next
    case Flush
    with ne em show ?thesis
      by (simp add: flushTimerFires_def split: if_splits)
  next
    case StorageAnswer
    then show ?thesis by simp
  qed
  with frame [of clock es] show ?thesis by blast
qed

section \<open>Invariants of a run\<close>

text \<open>What one iteration of the loop returns, in one equation.\<close>

lemma processEntry_result:
  "processEntry now (spk, t) (s, ch) =
     (if t = [] \<or> getProp (lastBySpeaker s) spk = Str t then (s, ch)
      else (s\<lparr>transcript :=
                (if isContinuation s spk t
                 then butlast (transcript s) @ [(last (transcript s))\<lparr>text := t, ts := now\<rparr>]
                 else transcript s @ [\<lparr>ts = now, speaker = spk, text = t\<rparr>]),
              lastBySpeaker := setProp (lastBySpeaker s) spk t\<rparr>, True))"
  by (simp add: processEntry_def Let_def)

lemma processEntry_pendingGet: "pendingGet (fst (processEntry now c sc)) = pendingGet (fst sc)"
  by (cases c, cases sc) (simp add: processEntry_result)

lemma processLoop_pendingGet: "pendingGet (fst (processLoop clock k es sc)) = pendingGet (fst sc)"
  by (induction es arbitrary: k sc) (simp_all add: processEntry_pendingGet)

lemma step_pendingGet:
  assumes "pendingGet s = None"
  shows "pendingGet (step s ev) = None"
proof (cases ev)
  case (Reconcile clock es)
  have "pendingGet (fst (reconcile clock es s)) = pendingGet (fst (processLoop clock 0 es (s, False)))"
    by (simp add: reconcile_def scheduleStorageFlush_eq split: prod.splits)
  with assms Reconcile show ?thesis
    by (simp add: processLoop_pendingGet)
next
  case Clear
  with assms show ?thesis by (simp add: clear_def)
next
  case (Navigation newId container)
  with assms show ?thesis
    by (simp add: handleNavigation_def tryNarrowObserver_def split: option.splits)
next
  case Flush
  with assms show ?thesis by (simp add: flushTimerFires_def)
next
  case StorageAnswer
  with assms show ?thesis by (simp add: storageAnswer_def)
qed

subsection \<open>The cache of last texts\<close>

lemma agrees_cong:
  assumes "lastBySpeaker s' S = lastBySpeaker s S"
    and "latestText S (transcript s') = latestText S (transcript s)"
    and "S \<in> G' \<longleftrightarrow> S \<in> G"
  shows "agrees G' s' S = agrees G s S"
  using assms by (simp add: agrees_def)

lemma latestText_snoc:
  "latestText S (T @ [e]) = (if speaker e = S then Some (text e) else latestText S T)"
  by (simp add: latestText_def)

lemma latestText_last:
  assumes "T \<noteq> []"
  shows "latestText S T =
           (if speaker (last T) = S then Some (text (last T)) else latestText S (butlast T))"
proof -
  have "latestText S (butlast T @ [last T]) =
          (if speaker (last T) = S then Some (text (last T)) else latestText S (butlast T))"
    by (rule latestText_snoc)
  with assms show ?thesis by simp
qed

lemma processEntry_latestText_other:
  assumes "processEntry now (spk, t) (s, ch) = (s', ch')" and "S \<noteq> spk"
  shows "latestText S (transcript s') = latestText S (transcript s)"
proof -
  from processEntry_transcript_cases [OF assms(1)]
  consider "transcript s' = transcript s"
    | "transcript s \<noteq> []" "speaker (last (transcript s)) = spk"
      "transcript s' =
         butlast (transcript s) @ [(last (transcript s))\<lparr>text := t, ts := now\<rparr>]"
    | "transcript s' = transcript s @ [\<lparr>ts = now, speaker = spk, text = t\<rparr>]"
    by blast
  then show ?thesis
  proof cases
    case 1
    then show ?thesis by simp
  next
    case 2
    have "latestText S (transcript s') = latestText S (butlast (transcript s))"
      using 2(2,3) assms(2) by (simp add: latestText_snoc)
    also have "\<dots> = latestText S (transcript s)"
      using latestText_last [OF 2(1), of S] 2(2) assms(2) by simp
    finally show ?thesis .
  next
    case 3
    with assms(2) show ?thesis by (simp add: latestText_snoc)
  qed
qed

lemma processEntry_latestText_same:
  assumes "processEntry now (spk, t) (s, ch) = (s', ch')"
    and "\<not> (t = [] \<or> getProp (lastBySpeaker s) spk = Str t)"
  shows "latestText spk (transcript s') = Some t"
proof (cases "isContinuation s spk t")
  case True
  with assms have "transcript s' =
      butlast (transcript s) @ [(last (transcript s))\<lparr>text := t, ts := now\<rparr>]"
    by (auto simp: processEntry_result)
  moreover have "speaker (last (transcript s)) = spk"
    using True by (simp add: isContinuation_last)
  ultimately show ?thesis by (simp add: latestText_snoc)
next
  case False
  with assms have "transcript s' = transcript s @ [\<lparr>ts = now, speaker = spk, text = t\<rparr>]"
    by (auto simp: processEntry_result)
  then show ?thesis by (simp add: latestText_snoc)
qed

lemma processEntry_agrees:
  assumes inv: "\<forall>S. S \<noteq> ''__proto__'' \<longrightarrow> agrees G s S"
    and pe: "processEntry now (spk, t) (s, ch) = (s', ch')"
    and S: "S \<noteq> ''__proto__''"
  shows "agrees (G \<union> (if t \<noteq> [] then {spk} else {})) s' S"
proof (cases "S = spk \<and> t \<noteq> []")
  case False
  have lbs: "lastBySpeaker s' S = lastBySpeaker s S"
    using processEntry_lastBySpeaker [OF S, of now spk t "(s, ch)"] pe False by auto
  have "latestText S (transcript s') = latestText S (transcript s)"
  proof (cases "S = spk")
    case True
    with False have "t = []" by simp
    with pe show ?thesis by (simp add: processEntry_result)
  next
    case neq: False
    with pe show ?thesis by (rule processEntry_latestText_other)
  qed
  moreover have "S \<in> G \<union> (if t \<noteq> [] then {spk} else {}) \<longleftrightarrow> S \<in> G"
    using False by auto
  ultimately have "agrees (G \<union> (if t \<noteq> [] then {spk} else {})) s' S = agrees G s S"
    using lbs by (intro agrees_cong)
  with inv S show ?thesis by simp
next
  case True
  then have spk: "spk = S" and t: "t \<noteq> []" by simp_all
  have lbs: "lastBySpeaker s' S = Some t"
    using processEntry_lastBySpeaker [OF S, of now spk t "(s, ch)"] pe True by auto
  have "latestText S (transcript s') = Some t"
  proof (cases "getProp (lastBySpeaker s) spk = Str t")
    case skip: True
    with pe have same: "s' = s" by (simp add: processEntry_result)
    from skip spk have own: "lastBySpeaker s S = Some t" by (simp add: getProp_Str)
    moreover from inv S have "agrees G s S" by simp
    ultimately have "latestText S (transcript s) = Some t"
      by (auto simp: agrees_def split: if_splits)
    with same show ?thesis by simp
  next
    case False
    with pe t spk show ?thesis
      using processEntry_latestText_same [of now spk t s ch s' ch'] by simp
  qed
  with lbs True show ?thesis
    by (simp add: agrees_def)
qed

lemma spokenIn_Cons:
  "spokenIn ((spk, t) # cs) = (if t \<noteq> [] then {spk} else {}) \<union> spokenIn cs"
  by (simp add: spokenIn_def)

lemma processLoop_agrees:
  assumes "\<forall>S. S \<noteq> ''__proto__'' \<longrightarrow> agrees G s S"
    and "processLoop clock k es (s, ch) = (s', ch')"
  shows "\<forall>S. S \<noteq> ''__proto__'' \<longrightarrow> agrees (G \<union> spokenIn es) s' S"
  using assms
proof (induction es arbitrary: k G s ch)
  case Nil
  then show ?case by (simp add: spokenIn_def)
next
  case (Cons c cs)
  obtain spk t where c: "c = (spk, t)" by (cases c)
  obtain s1 ch1 where mid: "processEntry (clock k) (spk, t) (s, ch) = (s1, ch1)"
    by (cases "processEntry (clock k) (spk, t) (s, ch)")
  with Cons.prems(2) c have rest: "processLoop clock (Suc k) cs (s1, ch1) = (s', ch')"
    by simp
  have "\<forall>S. S \<noteq> ''__proto__'' \<longrightarrow> agrees (G \<union> (if t \<noteq> [] then {spk} else {})) s1 S"
    using processEntry_agrees [OF Cons.prems(1) mid] by blast
  from Cons.IH [OF this rest]
  have "\<forall>S. S \<noteq> ''__proto__'' \<longrightarrow>
          agrees (G \<union> (if t \<noteq> [] then {spk} else {}) \<union> spokenIn cs) s' S" .
  moreover have "G \<union> (if t \<noteq> [] then {spk} else {}) \<union> spokenIn cs = G \<union> spokenIn (c # cs)"
    unfolding c spokenIn_Cons by (simp add: Un_assoc)
  ultimately show ?case by simp
qed

text \<open>
  Every event keeps the agreement for every speaker but \<open>__proto__\<close>, as long as no
  storage answer is pending.
\<close>

lemma step_agrees:
  assumes inv: "\<forall>S. S \<noteq> ''__proto__'' \<longrightarrow> agrees G s S" and pg: "pendingGet s = None"
  shows "\<forall>S. S \<noteq> ''__proto__'' \<longrightarrow> agrees (spokenAfter s G ev) (step s ev) S"
proof (cases ev)
  case (Reconcile clock es)
  obtain s' ch' where loop: "processLoop clock 0 es (s, False) = (s', ch')"
    by (cases "processLoop clock 0 es (s, False)")
  have "transcript (fst (reconcile clock es s)) = transcript s'"
    and "lastBySpeaker (fst (reconcile clock es s)) = lastBySpeaker s'"
    using loop by (simp_all add: reconcile_transcript reconcile_lastBySpeaker)
  then have "agrees (G \<union> spokenIn es) (fst (reconcile clock es s)) S =
      agrees (G \<union> spokenIn es) s' S" for S
    by (intro agrees_cong) simp_all
  with processLoop_agrees [OF inv loop] Reconcile show ?thesis
    by simp
next
  case Clear
  then show ?thesis by (simp add: agrees_def clear_def)
next
  case (Navigation newId container)
  show ?thesis
  proof (cases "Some newId = meetingId s")
    case True
    with inv Navigation show ?thesis
      by (simp add: handleNavigation_def)
  next
    case False
    with Navigation show ?thesis
      by (simp add: agrees_def handleNavigation_def tryNarrowObserver_def split: option.splits)
  qed
next
  case Flush
  have "agrees G (flushTimerFires s) S = agrees G s S" for S
    by (intro agrees_cong) (simp_all add: flushTimerFires_def)
  with inv Flush show ?thesis by simp
next
  case StorageAnswer
  with inv pg show ?thesis by (simp add: storageAnswer_def)
qed

lemma run_agrees:
  assumes "\<forall>S. S \<noteq> ''__proto__'' \<longrightarrow> agrees G s S" and "pendingGet s = None"
  shows "\<forall>S. S \<noteq> ''__proto__'' \<longrightarrow> agrees (spokenSinceReset s G evs) (run s evs) S"
  using assms
proof (induction evs arbitrary: s G)
  case Nil
  then show ?case by (simp add: run_def)
next
  case (Cons ev evs)
  from Cons.IH [OF step_agrees [OF Cons.prems] step_pendingGet [OF Cons.prems(2)]]
  show ?case
    by (simp add: run_Cons)
qed

text \<open>
  When the storage answer arrives before every other event, each state of the session
  has the cache of last texts in agreement with the transcript, for every speaker but
  \<open>__proto__\<close>.
\<close>

lemma timely_answer_cache_invariant:
  assumes "S \<noteq> ''__proto__''"
  shows "agrees (spokenSinceReset (step (init mid container st) StorageAnswer) {} evs)
           (run (step (init mid container st) StorageAnswer) evs) S"
proof -
  let ?s0 = "step (init mid container st) StorageAnswer"
  have "lastBySpeaker ?s0 = Map.empty" and pg: "pendingGet ?s0 = None"
    by (simp_all add: init_def storageAnswer_def restore_def tryNarrowObserver_def
        initialState_def split: option.splits)
  then have "\<forall>S. S \<noteq> ''__proto__'' \<longrightarrow> agrees {} ?s0 S"
    by (simp add: agrees_def)
  from run_agrees [OF this pg] assms show ?thesis by blast
qed

subsection \<open>The last line and its cached text\<close>

lemma processEntry_cached:
  assumes "processEntry now (spk, t) (s, ch) = (s', ch')"
  shows "(s' = s \<and> ch' = ch) \<or> (ch' \<and> lastLineCached s')"
proof (cases "t = [] \<or> getProp (lastBySpeaker s) spk = Str t")
  case True
  with assms show ?thesis by (simp add: processEntry_result)
next
  case False
  then have t: "t \<noteq> []" by simp
  let ?tr = "if isContinuation s spk t
             then butlast (transcript s) @ [(last (transcript s))\<lparr>text := t, ts := now\<rparr>]
             else transcript s @ [\<lparr>ts = now, speaker = spk, text = t\<rparr>]"
  from assms False have s': "s' = s\<lparr>transcript := ?tr,
      lastBySpeaker := setProp (lastBySpeaker s) spk t\<rparr>" and ch': "ch'"
    by (simp_all add: processEntry_result)
  have "?tr \<noteq> []" and "text (last ?tr) = t" and "speaker (last ?tr) = spk"
    by (simp_all add: isContinuation_last)
  moreover have "spk = ''__proto__'' \<or> setProp (lastBySpeaker s) spk t spk = Some t"
    by (auto simp: setProp_def)
  ultimately have "lastLineCached s'"
    unfolding s' lastLineCached_def using t by auto
  with ch' show ?thesis by simp
qed

lemma processLoop_cached:
  assumes "processLoop clock k es (s, ch) = (s', ch')"
  shows "(s' = s \<and> ch' = ch) \<or> (ch' \<and> lastLineCached s')"
  using assms
proof (induction es arbitrary: k s ch)
  case Nil
  then show ?case by simp
next
  case (Cons c cs)
  obtain spk t where c: "c = (spk, t)" by (cases c)
  obtain s1 ch1 where mid: "processEntry (clock k) (spk, t) (s, ch) = (s1, ch1)"
    by (cases "processEntry (clock k) (spk, t) (s, ch)")
  with Cons.prems c have rest: "processLoop clock (Suc k) cs (s1, ch1) = (s', ch')"
    by simp
  from processEntry_cached [OF mid] Cons.IH [OF rest] show ?case
    by auto
qed

lemma lastLineCached_cong:
  assumes "transcript s' = transcript s" and "lastBySpeaker s' = lastBySpeaker s"
  shows "lastLineCached s' = lastLineCached s"
  using assms by (simp add: lastLineCached_def)

lemma reconcile_cached:
  "(fst (reconcile clock es s) = s \<and> \<not> snd (reconcile clock es s)) \<or>
   (snd (reconcile clock es s) \<and> lastLineCached (fst (reconcile clock es s)))"
proof -
  obtain s' ch' where loop: "processLoop clock 0 es (s, False) = (s', ch')"
    by (cases "processLoop clock 0 es (s, False)")
  from processLoop_cached [OF loop]
  consider "s' = s" "\<not> ch'" | "ch'" "lastLineCached s'"
    by auto
  then show ?thesis
  proof cases
    case 1
    with loop show ?thesis by (simp add: reconcile_def)
  next
    case 2
    have "lastLineCached (scheduleStorageFlush s') = lastLineCached s'"
      by (rule lastLineCached_cong) (simp_all add: scheduleStorageFlush_eq)
    with 2 loop show ?thesis by (simp add: reconcile_def)
  qed
qed

lemma step_cached:
  assumes "b \<or> lastLineCached s"
  shows "restoredAfter s b ev \<or> lastLineCached (step s ev)"
proof (cases ev)
  case (Reconcile clock es)
  with assms reconcile_cached [of clock es s] show ?thesis
    by auto
next
  case Clear
  then show ?thesis by (simp add: lastLineCached_def clear_def)
next
  case (Navigation newId container)
  show ?thesis
  proof (cases "Some newId = meetingId s")
    case True
    with assms Navigation show ?thesis
      by (simp add: handleNavigation_def)
  next
    case False
    with Navigation show ?thesis
      by (simp add: lastLineCached_def handleNavigation_def tryNarrowObserver_def
          split: option.splits)
  qed
next
  case Flush
  have "lastLineCached (flushTimerFires s) = lastLineCached s"
    by (rule lastLineCached_cong) (simp_all add: flushTimerFires_def)
  with assms Flush show ?thesis by simp
next
  case StorageAnswer
  show ?thesis
  proof (cases "pendingGet s")
    case None
    with assms StorageAnswer show ?thesis by (simp add: storageAnswer_def)
  next
    case (Some data)
    show ?thesis
    proof (cases "current_meeting_transcript data")
      case None
      have "lastLineCached (storageAnswer s) = lastLineCached s"
        by (rule lastLineCached_cong) (simp_all add: storageAnswer_def restore_def Some None)
      with assms StorageAnswer Some None show ?thesis by simp
    next
      case tr: (Some tr)
      show ?thesis
      proof (cases "idMatches data s")
        case True
        with StorageAnswer Some tr show ?thesis
          by (simp add: storageAnswer_def restore_def idMatches_pendingGet lastLineCached_def)
      next
        case False
        have "lastLineCached (storageAnswer s) = lastLineCached s"
          by (rule lastLineCached_cong)
            (simp_all add: storageAnswer_def restore_def idMatches_pendingGet Some tr False)
        with assms StorageAnswer Some tr False show ?thesis by simp
      qed
    qed
  qed
qed

lemma run_cached:
  assumes "b \<or> lastLineCached s"
  shows "restoredUntouched s b evs \<or> lastLineCached (run s evs)"
  using assms
proof (induction evs arbitrary: s b)
  case Nil
  then show ?case by (simp add: run_def)
next
  case (Cons ev evs)
  from Cons.IH [OF step_cached [OF Cons.prems]] show ?case
    by (simp add: run_Cons)
qed

lemma init_cached: "lastLineCached (init mid container st)"
  by (simp add: lastLineCached_def init_def tryNarrowObserver_def initialState_def
      split: option.splits)

section \<open>Properties of the parser\<close>

lemma map_filter_all_None:
  assumes "\<forall>b \<in> set bs. f b = None"
  shows "List.map_filter f bs = []"
  using assms by (induction bs) simp_all

lemma parseBlock_None:
  assumes "length (children b) < 2 \<or> blockText (tl (children b)) = []"
  shows "parseBlock b = None"
proof (cases "children b")
  case Nil
  then show ?thesis by (simp add: parseBlock_def)
next
  case (Cons x xs)
  with assms show ?thesis
    by (cases xs) (simp_all add: parseBlock_def)
qed

text \<open>The parser never returns an entry with an empty text.\<close>

lemma parseBlock_nonempty:
  assumes "parseBlock b = Some (S, t)"
  shows "t \<noteq> []"
  using assms
  by (auto simp: parseBlock_def Let_def split: list.splits if_splits)

lemma parseCaptions_nonempty:
  assumes "(S, t) \<in> set (parseCaptions region)"
  shows "t \<noteq> []"
proof (cases "List.map_filter parseBlock (children region) = []")
  case True
  with assms show ?thesis
    by (auto simp: parseCaptions_def Let_def split: if_splits)
next
  case False
  with assms have "(S, t) \<in> set (List.map_filter parseBlock (children region))"
    by (simp add: parseCaptions_def)
  then obtain b where "parseBlock b = Some (S, t)"
    by (auto simp: List.map_filter_def)
  then show ?thesis
    by (rule parseBlock_nonempty)
qed

section \<open>The concrete sessions, evaluated\<close>

lemma rewriteRun_lines:
  "lines (run (init ''abc-defg-hij'' None emptyStorage) rewriteRun) =
     [(''Sam'', ''Hello world''), (''Sam'', ''Hello world again'')]"
  by (simp add: rewriteRun_def run_defs engine_defs lines_def)

lemma flushedStorage_eq:
  "flushedStorage =
     \<lparr>current_meeting_transcript =
        Some [\<lparr>ts = ''12:00:00'', speaker = ''Sam'', text = ''Hello''\<rparr>],
      current_meeting_id = Some ''abc-defg-hij''\<rparr>"
  by (simp add: flushedStorage_def run_defs engine_defs)

lemma clearedStorage_eq:
  "clearedStorage =
     \<lparr>current_meeting_transcript = Some [], current_meeting_id = Some ''abc-defg-hij''\<rparr>"
  by (simp add: clearedStorage_def run_defs engine_defs)

text \<open>
  After a restore the first caption of the restored speaker is pushed, although it
  extends the restored line.
\<close>

lemma restored_session_unmerged:
  "lines (run (init ''abc-defg-hij'' None flushedStorage)
       [StorageAnswer, Reconcile later [(''Sam'', ''Hello world'')]]) =
     [(''Sam'', ''Hello''), (''Sam'', ''Hello world'')]"
  by (simp add: flushedStorage_eq run_defs engine_defs lines_def)

lemma beforeLateAnswer_fields:
  "transcript (beforeLateAnswer st) =
     [\<lparr>ts = ''12:00:07'', speaker = ''Ada'', text = ''Hello''\<rparr>,
      \<lparr>ts = ''12:00:07'', speaker = ''Bob'', text = ''Hi''\<rparr>]"
  "lastBySpeaker (beforeLateAnswer st) = [''Ada'' \<mapsto> ''Hello'', ''Bob'' \<mapsto> ''Hi'']"
  "meetingId (beforeLateAnswer st) = Some ''abc-defg-hij''"
  "pendingGet (beforeLateAnswer st) = Some st"
  by (simp_all add: beforeLateAnswer_def twoSpeakers_def run_defs engine_defs)

lemma lateAnswerRun_eq:
  "run (init ''abc-defg-hij'' None st) lateAnswerRun = step (beforeLateAnswer st) StorageAnswer"
  by (simp add: lateAnswerRun_def beforeLateAnswer_def run_def)

lemma liveSession_fields:
  "meetingId liveSession = Some ''abc-defg-hij''"
  "lines liveSession = [(''Ada'', ''Hello''), (''Bob'', ''Hi'')]"
  "lastBySpeaker liveSession = [''Ada'' \<mapsto> ''Hello'', ''Bob'' \<mapsto> ''Hi'']"
  "narrowObserverAttached liveSession"
  "observer liveSession = ContainerObserver twoBlocksRegion"
  "current_meeting_transcript (store liveSession) = Some (transcript liveSession)"
  "current_meeting_id (store liveSession) = Some ''abc-defg-hij''"
  by (simp_all add: liveSession_def twoSpeakers_def run_defs engine_defs lines_def)

text \<open>The parser does return the snapshots used above.\<close>

lemma parseCaptions_twoBlocksRegion: "parseCaptions twoBlocksRegion = twoBlocks"
  by (simp add: parseCaptions_def parseBlock_def blockText_def trim_def isSpace_def
      twoBlocksRegion_def twoBlocks_def)

lemma parseCaptions_protoRegion: "parseCaptions protoRegion = protoSnapshot"
  by (simp add: parseCaptions_def parseBlock_def blockText_def trim_def isSpace_def
      protoRegion_def protoSnapshot_def)

text \<open>
  A snapshot of the speaker \<open>__proto__\<close> is pushed again by every call, since nothing
  is stored for that name.
\<close>

lemma proto_snapshot_pushed_again:
  "snd (reconcile later protoSnapshot
          (fst (reconcile noon protoSnapshot (initialState emptyStorage)))) \<and>
   lines (fst (reconcile later protoSnapshot
          (fst (reconcile noon protoSnapshot (initialState emptyStorage))))) =
     [(''__proto__'', ''Hi''), (''__proto__'', ''Hi'')]"
  by (simp add: protoSnapshot_def engine_defs lines_def)

text \<open>
  For every other speaker, two blocks in one snapshot, the second text extending the
  first, leave one line.
\<close>

lemma other_speaker_snapshot_merges:
  assumes "S \<noteq> ''__proto__''" and "t1 \<noteq> []" and "t2 \<noteq> []" and "prefix t1 t2"
  shows "(case reconcile clock [(S, t1), (S, t2)]
                 (s\<lparr>transcript := [], lastBySpeaker := Map.empty\<rparr>) of
           (s', changed) \<Rightarrow>
             lines s' = [(S, t2)] \<and> lastBySpeaker s' S = Some t2 \<and> changed)"
proof -
  let ?s0 = "s\<lparr>transcript := [], lastBySpeaker := Map.empty\<rparr>"
  let ?s1 = "?s0\<lparr>transcript := [\<lparr>ts = clock 0, speaker = S, text = t1\<rparr>],
                 lastBySpeaker := [S \<mapsto> t1]\<rparr>"
  have "getProp (lastBySpeaker ?s0) S \<noteq> Str t1"
    by (simp add: getProp_Str)
  moreover have "\<not> isContinuation ?s0 S t1"
    by (simp add: isContinuation_def)
  ultimately have first: "processEntry (clock 0) (S, t1) (?s0, False) = (?s1, True)"
    using assms(1,2) by (simp add: processEntry_result setProp_def)
  have own: "getProp (lastBySpeaker ?s1) S = Str t1"
    by (simp add: getProp_own)
  have "isContinuation ?s1 S t2"
    using assms(2,4) by (simp add: isContinuation_def Let_def getProp_def startsWith_def)
  with own assms(1,3) have second:
    "processEntry (clock 1) (S, t2) (?s1, True) =
       (if t2 = t1 then (?s1, True)
        else (?s1\<lparr>transcript := [\<lparr>ts = clock 1, speaker = S, text = t2\<rparr>],
                  lastBySpeaker := [S \<mapsto> t2]\<rparr>, True))"
    by (simp add: processEntry_result setProp_def)
  show ?thesis
    using first second
    by (simp add: reconcile_def scheduleStorageFlush_eq lines_def)
qed

section \<open>The claims\<close>

text \<open>
  C1. From the empty session state, four reconcile calls with the snapshots
  [Alice: Hi], [Alice: Hi there], [Bob: Hey], [Alice: Hi there everyone] leave a
  transcript of exactly three lines, in this order: Alice: Hi there, Bob: Hey,
  Alice: Hi there everyone. This holds whatever the clock reads and whatever the other
  fields of the state are.
\<close>

theorem end_to_end_scenario:
  "lines (run (s\<lparr>transcript := [], lastBySpeaker := Map.empty\<rparr>)
       [Reconcile c1 [(''Alice'', ''Hi'')],
        Reconcile c2 [(''Alice'', ''Hi there'')],
        Reconcile c3 [(''Bob'', ''Hey'')],
        Reconcile c4 [(''Alice'', ''Hi there everyone'')]])
   = [(''Alice'', ''Hi there''), (''Bob'', ''Hey''), (''Alice'', ''Hi there everyone'')]"
  by (simp add: run_def lines_def reconcile_def processEntry_def isContinuation_def
      scheduleStorageFlush_eq getProp_def setProp_def objectPrototype_def startsWith_def)

text \<open>
  C2, amended. Continuations are collapsed into the prior line: take any state that a
  session reaches from \<open>init\<close> by storage-answer, reconcile, clear, navigation and flush
  events in any order, whose transcript is not a restored one that nothing has touched
  yet, and any speaker S other than \<open>__proto__\<close>. A parsed entry (S, t) whose text has
  the text of the last line as a prefix, while that last line is by S, is merged into
  the last line: the number of lines and all lines but the last stay, and the last line
  is by S with text t. That no two neighbouring lines of one speaker ever stand in a
  strict prefix relation does not hold in every reachable state (see the counterexample
  below).
\<close>

theorem continuation_collapsed:
  assumes "\<not> restoredUntouched (init mid container st) False evs"
    and "S \<noteq> ''__proto__''"
    and "transcript (run (init mid container st) evs) \<noteq> []"
    and "speaker (last (transcript (run (init mid container st) evs))) = S"
    and "prefix (text (last (transcript (run (init mid container st) evs)))) t"
  shows "(case reconcile clock [(S, t)] (run (init mid container st) evs) of
           (s', changed) \<Rightarrow>
             length (transcript s') = length (transcript (run (init mid container st) evs)) \<and>
             butlast (transcript s') = butlast (transcript (run (init mid container st) evs)) \<and>
             speaker (last (transcript s')) = S \<and>
             text (last (transcript s')) = t)"
proof -
  let ?s = "run (init mid container st) evs"
  have "False \<or> lastLineCached (init mid container st)"
    by (simp add: init_cached)
  then have "restoredUntouched (init mid container st) False evs \<or> lastLineCached ?s"
    by (rule run_cached)
  with assms(1) have "lastLineCached ?s" by simp
  with assms(2,3,4) have ne: "text (last (transcript ?s)) \<noteq> []"
    and lbs: "lastBySpeaker ?s S = Some (text (last (transcript ?s)))"
    by (auto simp: lastLineCached_def)
  from lbs have prev: "getProp (lastBySpeaker ?s) S = Str (text (last (transcript ?s)))"
    by (rule getProp_own)
  from ne assms(5) have t: "t \<noteq> []" by auto
  show ?thesis
  proof (cases "t = text (last (transcript ?s))")
    case True
    with prev assms(4) show ?thesis
      by (simp add: reconcile_def processEntry_result)
  next
    case False
    have "isContinuation ?s S t"
      using prev ne assms(3,4,5) by (simp add: isContinuation_def startsWith_def)
    with False prev t assms(3,4) show ?thesis
      by (simp add: reconcile_def processEntry_result scheduleStorageFlush_eq)
  qed
qed

theorem continuation_collapsed_witness:
  "\<not> restoredUntouched (init ''abc-defg-hij'' None flushedStorage) False restoredRun \<and>
   ''Bob'' \<noteq> ''__proto__'' \<and>
   lines (run (init ''abc-defg-hij'' None flushedStorage) restoredRun) =
     [(''Sam'', ''Hello''), (''Ada'', ''Hello''), (''Bob'', ''Hi'')] \<and>
   prefix ''Hi'' ''Hi there'' \<and>
   (case reconcile noon [(''Bob'', ''Hi there'')]
           (run (init ''abc-defg-hij'' None flushedStorage) restoredRun) of
      (s', changed) \<Rightarrow>
        length (transcript s') = 3 \<and> speaker (last (transcript s')) = ''Bob'' \<and>
        text (last (transcript s')) = ''Hi there'')"
proof -
  let ?s = "run (init ''abc-defg-hij'' None flushedStorage) restoredRun"
  have tr: "transcript ?s =
      [\<lparr>ts = ''12:00:00'', speaker = ''Sam'', text = ''Hello''\<rparr>,
       \<lparr>ts = ''12:00:07'', speaker = ''Ada'', text = ''Hello''\<rparr>,
       \<lparr>ts = ''12:00:07'', speaker = ''Bob'', text = ''Hi''\<rparr>]"
    by (simp add: restoredRun_def twoSpeakers_def flushedStorage_eq run_defs engine_defs)
  have h1: "\<not> restoredUntouched (init ''abc-defg-hij'' None flushedStorage) False restoredRun"
    by (simp add: restoredRun_def twoSpeakers_def flushedStorage_eq run_defs engine_defs)
  have h2: "''Bob'' \<noteq> ''__proto__''" by simp
  have h3: "transcript ?s \<noteq> []"
    and h4: "speaker (last (transcript ?s)) = ''Bob''"
    and h5: "prefix (text (last (transcript ?s))) ''Hi there''"
    by (simp_all add: tr)
  from continuation_collapsed [OF h1 h2 h3 h4 h5, where clock = noon] h1
  show ?thesis
    by (simp add: tr lines_def split: prod.splits)
qed

text \<open>
  Counterexample to C2 as stated. Sam's caption Hello world is rewritten to Hello and
  then grows to Hello world again: the second line is started by the rewrite, and the
  third snapshot continues it, so that the transcript ends with two neighbouring lines
  of Sam, the first a strict prefix of the second.
\<close>

theorem unmerged_continuation_counterexample:
  "unmergedContinuation (transcript (run (init ''abc-defg-hij'' None emptyStorage) rewriteRun))"
  by (simp add: rewriteRun_def run_defs engine_defs)

text \<open>
  C3. The code breaks the invariant in two ways. After the speaker \<open>__proto__\<close> has been
  processed, the transcript holds the speaker's line but \<open>lastBySpeaker\<close> holds nothing
  for the name, and the read yields \<open>Object.prototype\<close>. And when the storage answer
  arrives after the first captions, the transcript is replaced by the stored one while
  \<open>lastBySpeaker\<close> keeps the texts of lines that are gone: Bob has spoken, the cache
  holds Hi for Bob, and the transcript has no line of Bob.
\<close>

theorem cache_disagrees_with_transcript:
  "''__proto__'' \<in> spokenSinceReset (init ''abc-defg-hij'' None emptyStorage) {} protoRun \<and>
   latestText ''__proto__'' (transcript (run (init ''abc-defg-hij'' None emptyStorage) protoRun)) =
     Some ''Hi'' \<and>
   lastBySpeaker (run (init ''abc-defg-hij'' None emptyStorage) protoRun) ''__proto__'' = None \<and>
   getProp (lastBySpeaker (run (init ''abc-defg-hij'' None emptyStorage) protoRun)) ''__proto__'' =
     Inherited ''[object Object]'' \<and>
   ''Bob'' \<in> spokenSinceReset (init ''abc-defg-hij'' None flushedStorage) {} lateAnswerRun \<and>
   lastBySpeaker (run (init ''abc-defg-hij'' None flushedStorage) lateAnswerRun) ''Bob'' =
     Some ''Hi'' \<and>
   latestText ''Bob'' (transcript (run (init ''abc-defg-hij'' None flushedStorage) lateAnswerRun)) =
     None \<and>
   lines (run (init ''abc-defg-hij'' None flushedStorage) lateAnswerRun) = [(''Sam'', ''Hello'')]"
proof -
  have "transcript (run (init ''abc-defg-hij'' None emptyStorage) protoRun) =
      [\<lparr>ts = ''12:00:00'', speaker = ''__proto__'', text = ''Hi''\<rparr>]"
    and "lastBySpeaker (run (init ''abc-defg-hij'' None emptyStorage) protoRun) = Map.empty"
    by (simp_all add: protoRun_def protoSnapshot_def run_defs engine_defs)
  moreover have "transcript (run (init ''abc-defg-hij'' None flushedStorage) lateAnswerRun) =
      [\<lparr>ts = ''12:00:00'', speaker = ''Sam'', text = ''Hello''\<rparr>]"
    and "lastBySpeaker (run (init ''abc-defg-hij'' None flushedStorage) lateAnswerRun) =
      [''Ada'' \<mapsto> ''Hello'', ''Bob'' \<mapsto> ''Hi'']"
    by (simp_all add: lateAnswerRun_eq beforeLateAnswer_fields storageAnswer_def restore_def
        idMatches_def flushedStorage_eq)
  ultimately show ?thesis
    by (simp add: latestText_def lines_def getProp_def spokenIn_def protoRun_def
        protoSnapshot_def lateAnswerRun_def twoSpeakers_def)
qed

text \<open>
  C4. Continuation law. When the last transcript line belongs to speaker S and
  lastBySpeaker[S] is Hello, reconcile with the single entry (S, Hello world) reports a
  change, keeps the number of lines and every line but the last, and the last line is the
  old last line with its text set to Hello world and its time stamp set to the clock's
  reading; lastBySpeaker[S] becomes Hello world.
\<close>

theorem continuation_law:
  assumes "transcript s \<noteq> []" and "speaker (last (transcript s)) = S"
    and "lastBySpeaker s S = Some ''Hello''"
  shows "(case reconcile clock [(S, ''Hello world'')] s of (s', changed) \<Rightarrow>
           changed \<and>
           length (transcript s') = length (transcript s) \<and>
           butlast (transcript s') = butlast (transcript s) \<and>
           last (transcript s') =
             (last (transcript s))\<lparr>text := ''Hello world'', ts := clock 0\<rparr> \<and>
           lastBySpeaker s' S = Some ''Hello world'')"
proof -
  from assms(3) have prev: "getProp (lastBySpeaker s) S = Str ''Hello''"
    by (rule getProp_own)
  with assms(1,2) have "isContinuation s S ''Hello world''"
    by (simp add: isContinuation_def startsWith_def)
  with prev assms(1,3) show ?thesis
    by (simp add: reconcile_def processEntry_result scheduleStorageFlush_eq setProp_def)
qed

theorem continuation_law_witness:
  "transcript afterHello \<noteq> [] \<and> speaker (last (transcript afterHello)) = ''Sam'' \<and>
   lastBySpeaker afterHello ''Sam'' = Some ''Hello'' \<and>
   (case reconcile later [(''Sam'', ''Hello world'')] afterHello of (s', changed) \<Rightarrow>
      changed \<and>
      length (transcript s') = length (transcript afterHello) \<and>
      butlast (transcript s') = butlast (transcript afterHello) \<and>
      last (transcript s') =
        (last (transcript afterHello))\<lparr>text := ''Hello world'', ts := later 0\<rparr> \<and>
      lastBySpeaker s' ''Sam'' = Some ''Hello world'')"
proof -
  have h1: "transcript afterHello \<noteq> []"
    and h2: "speaker (last (transcript afterHello)) = ''Sam''"
    and h3: "lastBySpeaker afterHello ''Sam'' = Some ''Hello''"
    by (simp_all add: afterHello_def engine_defs)
  from continuation_law [OF h1 h2 h3, where clock = later] h1 h2 h3 show ?thesis
    by simp
qed



text \<open>
  C6, amended. Idempotence holds for every state and every parsed sequence in which no
  speaker occurs with two different non-empty texts (in particular when every speaker
  occurs at most once) and the speaker \<open>__proto__\<close> does not occur with a non-empty
  text: a second reconcile call with the same sequence returns changed = false and the
  state it was given, whatever the clock reads. It fails for a speaker with two
  different texts (see the counterexample below).
\<close>

theorem reconcile_idempotent:
  assumes "\<forall>c \<in> set es. \<forall>c' \<in> set es.
             fst c = fst c' \<longrightarrow> snd c = [] \<or> snd c' = [] \<or> snd c = snd c'"
    and "\<forall>c \<in> set es. fst c = ''__proto__'' \<longrightarrow> snd c = []"
  shows "reconcile clock' es (fst (reconcile clock es s)) = (fst (reconcile clock es s), False)"
proof -
  let ?s1 = "fst (reconcile clock es s)"
  have "snd c = [] \<or> lastBySpeaker ?s1 (fst c) = Some (snd c)" if "c \<in> set es" for c
  proof (cases "snd c = []")
    case True
    then show ?thesis by simp
  next
    case False
    have "(fst c, snd c) \<in> set es" using that by simp
    moreover have "fst c \<noteq> ''__proto__''"
      using assms(2) that False by blast
    moreover have "\<forall>c' \<in> set es. fst c' = fst c \<longrightarrow> snd c' = [] \<or> snd c' = snd c"
      using assms(1) that False by metis
    ultimately show ?thesis
      using False processLoop_lastBySpeaker reconcile_lastBySpeaker by metis
  qed
  then have "processLoop clock' 0 es (?s1, False) = (?s1, False)"
    by (intro processLoop_unchanged) blast
  then show ?thesis
    by (simp add: reconcile_def)
qed

theorem reconcile_idempotent_witness:
  "distinct (map fst twoSpeakers) \<and> ''__proto__'' \<notin> set (map fst twoSpeakers) \<and>
   reconcile later twoSpeakers (fst (reconcile noon twoSpeakers afterHello)) =
     (fst (reconcile noon twoSpeakers afterHello), False)"
proof -
  have h1: "\<forall>c \<in> set twoSpeakers. \<forall>c' \<in> set twoSpeakers.
      fst c = fst c' \<longrightarrow> snd c = [] \<or> snd c' = [] \<or> snd c = snd c'"
    and h2: "\<forall>c \<in> set twoSpeakers. fst c = ''__proto__'' \<longrightarrow> snd c = []"
    by (simp_all add: twoSpeakers_def)
  from reconcile_idempotent [OF h1 h2, where clock' = later and clock = noon and s = afterHello]
  show ?thesis by (simp add: twoSpeakers_def)
qed

text \<open>
  Counterexample to C6 as stated. A snapshot with two blocks of Ada, Hello and Thanks,
  reconciled twice from the initial state: the second call reports a change and the
  transcript grows from two lines to four.
\<close>

theorem idempotence_counterexample:
  "snd (reconcile later twoBlocks (fst (reconcile noon twoBlocks (initialState emptyStorage)))) \<and>
   lines (fst (reconcile noon twoBlocks (initialState emptyStorage))) =
     [(''Ada'', ''Hello''), (''Ada'', ''Thanks'')] \<and>
   lines (fst (reconcile later twoBlocks
       (fst (reconcile noon twoBlocks (initialState emptyStorage))))) =
     [(''Ada'', ''Hello''), (''Ada'', ''Thanks''), (''Ada'', ''Hello''), (''Ada'', ''Thanks'')]"
  by (simp add: twoBlocks_def engine_defs lines_def)

text \<open>
  C7. The code breaks the claim when the storage answer arrives after the first
  captions. The callback of \<open>init\<close> then replaces the transcript by the stored one: with
  the line of Sam in storage, the two lines of Ada and Bob are deleted and Sam's line
  stands in their place; with the empty transcript in storage, the sequence is emptied,
  by an event that is neither clear nor a change of meeting. The reconcile calls
  themselves keep their frame (lemma \<open>reconcile_frame\<close>).
\<close>

theorem late_answer_replaces_transcript:
  "lines (beforeLateAnswer flushedStorage) = [(''Ada'', ''Hello''), (''Bob'', ''Hi'')] \<and>
   lines (step (beforeLateAnswer flushedStorage) StorageAnswer) = [(''Sam'', ''Hello'')] \<and>
   meetingId (step (beforeLateAnswer flushedStorage) StorageAnswer) =
     meetingId (beforeLateAnswer flushedStorage) \<and>
   lines (beforeLateAnswer clearedStorage) = [(''Ada'', ''Hello''), (''Bob'', ''Hi'')] \<and>
   lines (step (beforeLateAnswer clearedStorage) StorageAnswer) = [] \<and>
   meetingId (step (beforeLateAnswer clearedStorage) StorageAnswer) =
     meetingId (beforeLateAnswer clearedStorage)"
  by (simp add: lines_def beforeLateAnswer_fields storageAnswer_def restore_def idMatches_def
      flushedStorage_eq clearedStorage_eq)

text \<open>
  C8. Reset law. When the navigation poll derives a meeting id different from the stored
  one, the transcript and lastBySpeaker become empty, the new id is adopted, both
  persisted keys are removed from storage, and the narrowing latch is reset before the
  container is looked up again: afterwards the latch is set exactly when a container was
  found, and the observer then watches that container, whatever the latch was before.
  When the derived id is the stored one, the state is left as it was.
\<close>

theorem navigation_reset:
  "(Some newId \<noteq> meetingId s \<longrightarrow>
      transcript (handleNavigation newId container s) = [] \<and>
      lastBySpeaker (handleNavigation newId container s) = Map.empty \<and>
      meetingId (handleNavigation newId container s) = Some newId \<and>
      current_meeting_transcript (store (handleNavigation newId container s)) = None \<and>
      current_meeting_id (store (handleNavigation newId container s)) = None \<and>
      narrowObserverAttached (handleNavigation newId container s) = (container \<noteq> None) \<and>
      observer (handleNavigation newId container s) =
        (case container of None \<Rightarrow> observer s | Some c \<Rightarrow> ContainerObserver c)) \<and>
   (Some newId = meetingId s \<longrightarrow> handleNavigation newId container s = s)"
  by (simp add: handleNavigation_def tryNarrowObserver_def removeBoth_def split: option.splits)

theorem navigation_reset_witness:
  "Some ''xyz-uvwx-rst'' \<noteq> meetingId liveSession \<and>
   transcript liveSession \<noteq> [] \<and>
   lines (handleNavigation ''xyz-uvwx-rst'' (Some freshRegion) liveSession) = [] \<and>
   lastBySpeaker (handleNavigation ''xyz-uvwx-rst'' (Some freshRegion) liveSession) = Map.empty \<and>
   meetingId (handleNavigation ''xyz-uvwx-rst'' (Some freshRegion) liveSession) =
     Some ''xyz-uvwx-rst'' \<and>
   store (handleNavigation ''xyz-uvwx-rst'' (Some freshRegion) liveSession) = emptyStorage \<and>
   observer (handleNavigation ''xyz-uvwx-rst'' (Some freshRegion) liveSession) =
     ContainerObserver freshRegion \<and>
   Some ''abc-defg-hij'' = meetingId liveSession \<and>
   handleNavigation ''abc-defg-hij'' (Some freshRegion) liveSession = liveSession"
proof -
  have h1: "Some ''xyz-uvwx-rst'' \<noteq> meetingId liveSession"
    and h2: "Some ''abc-defg-hij'' = meetingId liveSession"
    by (simp_all add: liveSession_fields)
  have ne: "transcript liveSession \<noteq> []"
    using liveSession_fields(2) by (auto simp: lines_def)
  from navigation_reset [where newId = "''xyz-uvwx-rst''" and s = liveSession
      and container = "Some freshRegion"]
    navigation_reset [where newId = "''abc-defg-hij''" and s = liveSession
      and container = "Some freshRegion"] h1 h2 ne
  show ?thesis
    by (simp add: lines_def emptyStorage_def)
qed

text \<open>
  C9. Fallback law. When every direct child element of the region has fewer than two
  child elements or an empty block text, the parser returns the single entry
  (System, t) for the white-space-normalised text t of the whole region if t is not
  empty, and no entry if it is.
\<close>

theorem fallback_law:
  assumes "\<forall>b \<in> set (children region).
             length (children b) < 2 \<or> blockText (tl (children b)) = []"
  shows "parseCaptions region =
           (if trim (collapseSpaces (textContent region)) = [] then []
            else [(''System'', trim (collapseSpaces (textContent region)))])"
proof -
  have "List.map_filter parseBlock (children region) = []"
    using assms by (intro map_filter_all_None) (simp add: parseBlock_None)
  then show ?thesis
    by (simp add: parseCaptions_def)
qed

theorem fallback_law_witness:
  "map (length \<circ> children) (children rawRegion) = [0] \<and>
   textContent rawRegion = ''raw  stuff '' \<and>
   parseCaptions rawRegion = [(''System'', ''raw stuff'')]"
proof -
  have h: "\<forall>b \<in> set (children rawRegion).
      length (children b) < 2 \<or> blockText (tl (children b)) = []"
    by (simp add: rawRegion_def)
  from fallback_law [OF h] show ?thesis
    by (simp add: rawRegion_def trim_def isSpace_def)
qed

text \<open>
  C10. The code breaks the claim for the speaker \<open>__proto__\<close>. From the empty session
  state, one reconcile call with the two entries (\<open>__proto__\<close>, Hi) and
  (\<open>__proto__\<close>, Hi all) leaves two lines and nothing in lastBySpeaker: the assignment
  stores nothing under that name, the read yields \<open>Object.prototype\<close>, and Hi all does not
  start with its string. For every other speaker the claim holds (lemma
  \<open>other_speaker_snapshot_merges\<close>).
\<close>

theorem proto_snapshot_not_merged:
  "lines (fst (reconcile noon protoTwice (initialState emptyStorage))) =
     [(''__proto__'', ''Hi''), (''__proto__'', ''Hi all'')] \<and>
   lastBySpeaker (fst (reconcile noon protoTwice (initialState emptyStorage))) ''__proto__'' =
     None \<and>
   snd (reconcile noon protoTwice (initialState emptyStorage))"
  by (simp add: protoTwice_def engine_defs lines_def)

end
